theory Spec2Isabelle
  imports Complex_Main
begin

section \<open>The IP blacklist of the key-exchange server\<close>

text \<open>
  This theory embeds \<^verbatim>\<open>keyexchange/filtering/blacklist.py\<close>: the class
  \<^verbatim>\<open>Blacklist\<close> with its methods \<^verbatim>\<open>update\<close>, \<^verbatim>\<open>save\<close>, \<^verbatim>\<open>add\<close>,
  \<^verbatim>\<open>remove\<close> and \<^verbatim>\<open>__contains__\<close>.

  \<^item> An IP is a string. The attribute \<^verbatim>\<open>ips\<close> is a set of IPs, the attribute
    \<^verbatim>\<open>_ttls\<close> a dictionary from IPs to an expiry that is either a clock reading or
    Python's \<^verbatim>\<open>None\<close>. In the map \<open>ttls\<close>, \<open>None\<close> is a missing key,
    \<open>Some None\<close> the key bound to \<^verbatim>\<open>None\<close> and \<open>Some (Some t)\<close> the key bound
    to the expiry \<open>t\<close>.
  \<^item> Clock readings (\<^verbatim>\<open>time.time()\<close>) are real numbers handed to the operation that
    reads the clock; the rounding of floating-point arithmetic is not modelled.
  \<^item> A method that mutates the object returns the new object. A method that can raise
    returns its outcome (\<open>Inl\<close> the exception, \<open>Inr\<close> the returned value) together
    with the object as the exception or the return leaves it.
  \<^item> The cache client (\<^verbatim>\<open>self._cache_server\<close>) is not part of the file: it is a
    parameter, a pair of functions \<^verbatim>\<open>get\<close> and \<^verbatim>\<open>cas\<close> over the state \<open>'b\<close> of
    the shared cache, which is threaded through every method that talks to the cache.
    Each such method also returns the list of the cache calls it made, in order, each
    with what it sent and what came back.
  \<^item> Every method holds the re-entrant lock of the object while it runs, so a method
    call is one atomic step here; the thread \<^verbatim>\<open>_Syncer\<close> is not modelled.
\<close>

subsection \<open>Data\<close>

type_synonym ip = string

type_synonym ttl_map = "ip \<rightharpoonup> real option"

type_synonym snapshot = "ip set \<times> ttl_map"

datatype error = KeyError | AttributeError

datatype call = Get_call string "snapshot option" | Cas_call string snapshot bool

record 'b cache_client =
  cache_get :: "string \<Rightarrow> 'b \<Rightarrow> snapshot option \<times> 'b"
  cache_cas :: "string \<Rightarrow> snapshot \<Rightarrow> 'b \<Rightarrow> bool \<times> 'b"

record 'b blacklist =
  ttls :: ttl_map
  cache_server :: "'b cache_client option"
  ips :: "ip set"
  dirty :: bool

definition blacklist_key :: string where
  "blacklist_key = ''keyexchange:blacklist''"

subsection \<open>The methods of \<^verbatim>\<open>Blacklist\<close>\<close>

text \<open>\<^verbatim>\<open>__init__\<close>: empty dictionary, empty set, not dirty.\<close>

definition init :: "'b cache_client option \<Rightarrow> 'b blacklist" where
  "init cs = \<lparr>ttls = Map.empty, cache_server = cs, ips = {}, dirty = False\<rparr>"

text \<open>
  \<^verbatim>\<open>update\<close>. The statement \<^verbatim>\<open>self.ips.union(ips)\<close> computes the union as a new set
  and drops it: \<^verbatim>\<open>set.union\<close> does not change its receiver. The dictionary is changed
  in place by \<^verbatim>\<open>self._ttls.update(ttls)\<close>, the entries of the argument winning.
\<close>

definition update :: "'b blacklist \<Rightarrow> 'b \<Rightarrow> 'b blacklist \<times> 'b \<times> call list" where
  "update bl srv =
     (case cache_server bl of
        None \<Rightarrow> (bl, srv, [])
      | Some cs \<Rightarrow>
          (case cache_get cs blacklist_key srv of
             (data, srv') \<Rightarrow>
               (case data of
                  None \<Rightarrow> (bl, srv', [Get_call blacklist_key data])
                | Some (rips, rttls) \<Rightarrow>
                    if \<not> rips \<subseteq> ips bl then
                      (let dropped = ips bl \<union> rips
                       in (bl\<lparr>ttls := ttls bl ++ rttls\<rparr>, srv', [Get_call blacklist_key data]))
                    else (bl, srv', [Get_call blacklist_key data]))))"

text \<open>
  The loop of \<^verbatim>\<open>save\<close>, entered with \<^verbatim>\<open>tries\<close> and the calls made so far. The
  attribute \<^verbatim>\<open>self._cache_server\<close> is read at every turn; on \<^verbatim>\<open>None\<close> the method
  call on it raises.
\<close>

function save_loop ::
  "nat \<Rightarrow> 'b blacklist \<Rightarrow> 'b \<Rightarrow> call list \<Rightarrow> (error + unit) \<times> 'b blacklist \<times> 'b \<times> call list"
where
  "save_loop tries bl srv tr =
     (if tries < 10 then
        (case cache_server bl of
           None \<Rightarrow> (Inl AttributeError, bl, srv, tr)
         | Some cs \<Rightarrow>
             (case cache_cas cs blacklist_key (ips bl, ttls bl) srv of
                (ok, srv1) \<Rightarrow>
                  if ok then
                    (Inr (), bl\<lparr>dirty := False\<rparr>, srv1,
                     tr @ [Cas_call blacklist_key (ips bl, ttls bl) ok])
                  else
                    (case update bl srv1 of
                       (bl2, srv2, tr2) \<Rightarrow>
                         save_loop (tries + 1) bl2 srv2
                           (tr @ [Cas_call blacklist_key (ips bl, ttls bl) ok] @ tr2))))
      else (Inr (), bl, srv, tr))"
  by pat_completeness auto
termination
  by (relation "measure (\<lambda>(tries, bl, srv, tr). 10 - tries)") auto

definition save :: "'b blacklist \<Rightarrow> 'b \<Rightarrow> (error + unit) \<times> 'b blacklist \<times> 'b \<times> call list" where
  "save bl srv =
     (if cache_server bl = None \<or> \<not> dirty bl then (Inr (), bl, srv, [])
      else save_loop 0 bl srv [])"

text \<open>\<^verbatim>\<open>add\<close>; \<open>now\<close> is the clock reading taken when a ttl is given.\<close>

definition add :: "'b blacklist \<Rightarrow> ip \<Rightarrow> real option \<Rightarrow> real \<Rightarrow> 'b blacklist" where
  "add bl elmt ttl now =
     bl\<lparr>ips := insert elmt (ips bl),
        ttls := (ttls bl)(elmt \<mapsto> (case ttl of Some t \<Rightarrow> Some (now + t) | None \<Rightarrow> None)),
        dirty := True\<rparr>"

text \<open>
  \<^verbatim>\<open>remove\<close>: \<^verbatim>\<open>set.remove\<close> raises on a missing element, then \<^verbatim>\<open>del\<close> raises
  on a missing key, after the set has been changed.
\<close>

definition remove :: "'b blacklist \<Rightarrow> ip \<Rightarrow> (error + unit) \<times> 'b blacklist" where
  "remove bl elmt =
     (if elmt \<notin> ips bl then (Inl KeyError, bl)
      else
        (let bl1 = bl\<lparr>ips := ips bl - {elmt}\<rparr>
         in if ttls bl1 elmt = None then (Inl KeyError, bl1)
            else (Inr (), bl1\<lparr>ttls := (ttls bl1)(elmt := None), dirty := True\<rparr>)))"

text \<open>\<^verbatim>\<open>__contains__\<close>; \<open>now\<close> is the clock reading taken when the entry has an expiry.\<close>

definition contains :: "'b blacklist \<Rightarrow> ip \<Rightarrow> real \<Rightarrow> (error + bool) \<times> 'b blacklist" where
  "contains bl elmt now =
     (let found = (elmt \<in> ips bl)
      in if found then
           (case ttls bl elmt of
              None \<Rightarrow> (Inl KeyError, bl)
            | Some ttl \<Rightarrow>
                (case ttl of
                   None \<Rightarrow> (Inr True, bl)
                 | Some t \<Rightarrow>
                     if t - now \<le> 0 then
                       (case remove bl elmt of
                          (Inl e, bl') \<Rightarrow> (Inl e, bl')
                        | (Inr u, bl') \<Rightarrow> (Inr False, bl'))
                     else (Inr found, bl)))
         else (Inr found, bl))"

subsection \<open>The invariant between the set and the dictionary\<close>

definition ttl_inv :: "'b blacklist \<Rightarrow> bool" where
  "ttl_inv bl \<longleftrightarrow> ips bl \<subseteq> dom (ttls bl)"

subsection \<open>Observations on the list of cache calls\<close>

fun is_cas :: "call \<Rightarrow> bool" where
  "is_cas (Cas_call key data ok) = True"
| "is_cas (Get_call key data) = False"

fun cas_ok :: "call \<Rightarrow> bool" where
  "cas_ok (Cas_call key data ok) = ok"
| "cas_ok (Get_call key data) = False"

definition cas_attempts :: "call list \<Rightarrow> nat" where
  "cas_attempts tr = length (filter is_cas tr)"

text \<open>
  The calls of one turn of the loop of \<^verbatim>\<open>save\<close> whose CAS failed: the failed CAS of
  the snapshot \<open>data\<close>, then the \<^verbatim>\<open>get\<close> made by \<^verbatim>\<open>update\<close>, which returned
  \<open>pulled\<close>.
\<close>

fun failed_turn :: "snapshot \<times> snapshot option \<Rightarrow> call list" where
  "failed_turn (data, pulled) =
     [Cas_call blacklist_key data False, Get_call blacklist_key pulled]"

text \<open>A \<^verbatim>\<open>get\<close> that returned a snapshot whose dictionary gives \<open>elmt\<close> an expiry.\<close>

fun pulls_expiry :: "ip \<Rightarrow> call \<Rightarrow> bool" where
  "pulls_expiry elmt (Get_call key None) = False"
| "pulls_expiry elmt (Get_call key (Some (rips, rttls))) =
     (case rttls elmt of Some (Some t) \<Rightarrow> True | Some None \<Rightarrow> False | None \<Rightarrow> False)"
| "pulls_expiry elmt (Cas_call key data ok) = False"

text \<open>
  The loop of \<^verbatim>\<open>save\<close> seen from outside, for a pair of the object and the cache
  state at the start of a turn. \<open>attempt_ok\<close> is the answer of the cache to the CAS of
  the object's snapshot, \<open>attempt_cache\<close> the cache state that CAS leaves.
\<close>

definition attempt_ok :: "'b cache_client \<Rightarrow> 'b blacklist \<times> 'b \<Rightarrow> bool" where
  "attempt_ok cs st =
     (case st of (bl, srv) \<Rightarrow> fst (cache_cas cs blacklist_key (ips bl, ttls bl) srv))"

definition attempt_cache :: "'b cache_client \<Rightarrow> 'b blacklist \<times> 'b \<Rightarrow> 'b" where
  "attempt_cache cs st =
     (case st of (bl, srv) \<Rightarrow> snd (cache_cas cs blacklist_key (ips bl, ttls bl) srv))"

text \<open>
  The object and the cache state after a turn whose CAS failed: the CAS has been sent and
  \<^verbatim>\<open>update\<close> has run on the cache state the CAS left. \<open>before_attempt cs st i\<close> is the
  pair at the start of turn \<open>i\<close> (counted from 0) when every earlier turn failed.
\<close>

definition after_failed_turn ::
  "'b cache_client \<Rightarrow> 'b blacklist \<times> 'b \<Rightarrow> 'b blacklist \<times> 'b"
where
  "after_failed_turn cs st =
     (case st of
        (bl, srv) \<Rightarrow>
          (fst (update bl (attempt_cache cs st)), fst (snd (update bl (attempt_cache cs st)))))"

definition before_attempt ::
  "'b cache_client \<Rightarrow> 'b blacklist \<times> 'b \<Rightarrow> nat \<Rightarrow> 'b blacklist \<times> 'b"
where
  "before_attempt cs st i = (after_failed_turn cs ^^ i) st"

text \<open>
  The cache calls of a turn whose CAS failed, with the snapshot \<^verbatim>\<open>get\<close> returned, and
  the call of a CAS that goes through.
\<close>

definition turn_calls :: "'b cache_client \<Rightarrow> 'b blacklist \<times> 'b \<Rightarrow> call list" where
  "turn_calls cs st =
     (case st of
        (bl, srv) \<Rightarrow>
          failed_turn ((ips bl, ttls bl), fst (cache_get cs blacklist_key (attempt_cache cs st))))"

definition publish_call :: "'b blacklist \<times> 'b \<Rightarrow> call" where
  "publish_call st = (case st of (bl, srv) \<Rightarrow> Cas_call blacklist_key (ips bl, ttls bl) True)"

subsection \<open>A cache with compare-and-swap\<close>

text \<open>
  Modelled from the spec: the state of the shared cache backend, an external collaborator
  of which the file holds only the calls. The cache keeps the snapshot stored under the
  blacklist key, a version that grows with every write, and for each client the version
  it has last seen.
\<close>

record server =
  stored :: "snapshot option"
  version :: nat
  seen :: "nat \<Rightarrow> nat"

text \<open>Modelled from the spec: the cache before anything is stored in it.\<close>

definition empty_server :: server where
  "empty_server = \<lparr>stored = None, version = 0, seen = (\<lambda>c. 0)\<rparr>"

text \<open>
  Modelled from the spec: the client \<open>c\<close> of that cache. The spec asks for true CAS
  semantics: a write goes through only if the stored value is still the one the writer
  expects, here the one the client has last seen; a client that has seen nothing yet
  expects the empty cache. \<^verbatim>\<open>get\<close> returns the stored snapshot and notes the version
  for the client.
\<close>

definition cas_client :: "nat \<Rightarrow> server cache_client" where
  "cas_client c =
     \<lparr>cache_get = (\<lambda>key s. (stored s, s\<lparr>seen := (seen s)(c := version s)\<rparr>)),
      cache_cas = (\<lambda>key data s.
         if seen s c = version s then
           (True, s\<lparr>stored := Some data, version := version s + 1,
                    seen := (seen s)(c := version s + 1)\<rparr>)
         else (False, s))\<rparr>"

text \<open>
  Modelled from the spec: a client whose cache cannot be reached, the case in which the
  push gives up after its retries. Nothing is read and no CAS goes through.
\<close>

definition down_client :: "'b cache_client" where
  "down_client =
     \<lparr>cache_get = (\<lambda>key s. (None, s)), cache_cas = (\<lambda>key data s. (False, s))\<rparr>"

subsection \<open>Entries without expiry, and runs of method calls\<close>

text \<open>The entry of \<open>elmt\<close> as \<^verbatim>\<open>add(elmt)\<close> with no ttl leaves it.\<close>

definition permanent :: "'b blacklist \<Rightarrow> ip \<Rightarrow> bool" where
  "permanent bl elmt \<longleftrightarrow> elmt \<in> ips bl \<and> ttls bl elmt = Some None"

text \<open>
  The calls a caller can make on one object: \<^verbatim>\<open>add\<close> (with the clock reading it
  takes), \<^verbatim>\<open>remove\<close>, the membership check (with its clock reading), \<^verbatim>\<open>update\<close>
  and \<^verbatim>\<open>save\<close>. \<open>run\<close> makes the calls in order on the object and the cache and
  collects the cache calls; an exception leaves the object as it is at the raise, and the
  caller goes on.
\<close>

datatype op = Add ip "real option" real | Remove ip | Check ip real | Update | Save

fun step :: "'b blacklist \<times> 'b \<times> call list \<Rightarrow> op \<Rightarrow> 'b blacklist \<times> 'b \<times> call list" where
  "step (bl, srv, tr) (Add elmt ttl now) = (add bl elmt ttl now, srv, tr)"
| "step (bl, srv, tr) (Remove elmt) = (snd (remove bl elmt), srv, tr)"
| "step (bl, srv, tr) (Check elmt now) = (snd (contains bl elmt now), srv, tr)"
| "step (bl, srv, tr) Update =
     (case update bl srv of (bl', srv', tr') \<Rightarrow> (bl', srv', tr @ tr'))"
| "step (bl, srv, tr) Save =
     (case save bl srv of (r, bl', srv', tr') \<Rightarrow> (bl', srv', tr @ tr'))"

definition run ::
  "'b blacklist \<times> 'b \<times> call list \<Rightarrow> op list \<Rightarrow> 'b blacklist \<times> 'b \<times> call list"
where
  "run st ops = foldl step st ops"

text \<open>The calls that address the entry of \<open>elmt\<close>: its removal, and adding it again with a ttl.\<close>

fun replaces :: "ip \<Rightarrow> op \<Rightarrow> bool" where
  "replaces elmt (Add e ttl now) = (e = elmt \<and> ttl \<noteq> None)"
| "replaces elmt (Remove e) = (e = elmt)"
| "replaces elmt (Check e now) = False"
| "replaces elmt Update = False"
| "replaces elmt Save = False"

subsection \<open>Two instances on one cache\<close>

definition ip_a :: ip where
  "ip_a = ''10.0.0.1''"

definition ip_b :: ip where
  "ip_b = ''10.0.0.2''"

text \<open>
  Instance A blocks \<open>ip_a\<close>, instance B blocks \<open>ip_b\<close>, both without expiry. A saves,
  then B saves, then A updates, then B updates, all on the cache that starts empty.
\<close>

definition inst_a :: "server blacklist" where
  "inst_a = add (init (Some (cas_client 0))) ip_a None 0"

definition inst_b :: "server blacklist" where
  "inst_b = add (init (Some (cas_client 1))) ip_b None 0"

definition saved_a :: "(error + unit) \<times> server blacklist \<times> server \<times> call list" where
  "saved_a = save inst_a empty_server"

definition saved_b :: "(error + unit) \<times> server blacklist \<times> server \<times> call list" where
  "saved_b = save inst_b (fst (snd (snd saved_a)))"

definition updated_a :: "server blacklist \<times> server \<times> call list" where
  "updated_a = update (fst (snd saved_a)) (fst (snd (snd saved_b)))"

definition updated_b :: "server blacklist \<times> server \<times> call list" where
  "updated_b = update (fst (snd saved_b)) (fst (snd updated_a))"

text \<open>
  A cache that holds \<open>ip_a\<close> with the expiry 100, and an instance that knows \<open>ip_a\<close>
  without expiry.
\<close>

definition remote_ttl :: snapshot where
  "remote_ttl = ({ip_a}, [ip_a \<mapsto> Some 100])"

definition server_ttl :: server where
  "server_ttl = empty_server\<lparr>stored := Some remote_ttl, version := 1\<rparr>"

text \<open>
  Instance C blocks \<open>ip_a\<close> for 5 seconds and \<open>ip_b\<close> without expiry at time 0 and saves.
  Instance D blocks \<open>ip_a\<close> without expiry at time 1 and updates from that cache.
\<close>

definition inst_c :: "server blacklist" where
  "inst_c = add (add (init (Some (cas_client 2))) ip_a (Some 5) 0) ip_b None 0"

definition saved_c :: "(error + unit) \<times> server blacklist \<times> server \<times> call list" where
  "saved_c = save inst_c empty_server"

definition inst_d :: "server blacklist" where
  "inst_d = add (init (Some (cas_client 3))) ip_a None 1"

definition updated_d :: "server blacklist \<times> server \<times> call list" where
  "updated_d = update inst_d (fst (snd (snd saved_c)))"

text \<open>An instance whose cache cannot be reached, with one entry that expires at time 5.\<close>

definition inst_down :: "unit blacklist" where
  "inst_down = add (init (Some down_client)) ip_a (Some 5) 0"

section \<open>Facts about the methods\<close>

subsection \<open>What \<^verbatim>\<open>update\<close> and the loop of \<^verbatim>\<open>save\<close> leave alone\<close>

declare save_loop.simps [simp del]

lemma update_ips: "ips (fst (update bl srv)) = ips bl"
  by (simp add: update_def Let_def split: option.splits prod.splits)

lemma update_dirty: "dirty (fst (update bl srv)) = dirty bl"
  by (simp add: update_def Let_def split: option.splits prod.splits)

lemma update_cache_server: "cache_server (fst (update bl srv)) = cache_server bl"
  by (simp add: update_def Let_def split: option.splits prod.splits)

lemma update_dom: "dom (ttls bl) \<subseteq> dom (ttls (fst (update bl srv)))"
  by (auto simp add: update_def Let_def split: option.splits prod.splits)

lemma update_calls:
  "snd (snd (update bl srv)) =
     (case cache_server bl of
        None \<Rightarrow> []
      | Some cs \<Rightarrow> [Get_call blacklist_key (fst (cache_get cs blacklist_key srv))])"
  by (simp add: update_def Let_def split: option.splits prod.splits)

text \<open>The calls made so far are only carried along by the loop.\<close>

lemma save_loop_acc:
  "save_loop tries bl srv tr =
     (case save_loop tries bl srv [] of (r, b, s, t) \<Rightarrow> (r, b, s, tr @ t))"
proof (induction "10 - tries" arbitrary: tries bl srv tr)
  case 0
  then show ?case by (simp add: save_loop.simps)
next
  case (Suc n)
  then have lt: "tries < 10" and n: "n = 10 - (tries + 1)" by simp_all
  note IH = Suc.hyps(1) [OF n]
  show ?case
  proof (cases "cache_server bl")
    case None
    with lt show ?thesis by (simp add: save_loop.simps)
  next
    case (Some cs)
    obtain ok srv1 where c: "cache_cas cs blacklist_key (ips bl, ttls bl) srv = (ok, srv1)"
      by (cases "cache_cas cs blacklist_key (ips bl, ttls bl) srv")
    obtain bl2 srv2 tr2 where u: "update bl srv1 = (bl2, srv2, tr2)"
      by (cases "update bl srv1")
    show ?thesis
    proof (cases ok)
      case True
      with lt Some c show ?thesis by (simp add: save_loop.simps)
    next
      case False
      have "save_loop tries bl srv tr =
              save_loop (tries + 1) bl2 srv2 (tr @ [Cas_call blacklist_key (ips bl, ttls bl) False] @ tr2)"
        using lt Some c u False by (subst save_loop.simps) simp
      moreover have "save_loop tries bl srv [] =
              save_loop (tries + 1) bl2 srv2 ([Cas_call blacklist_key (ips bl, ttls bl) False] @ tr2)"
        using lt Some c u False by (subst save_loop.simps) simp
      ultimately show ?thesis
        using IH [of bl2 srv2 "tr @ [Cas_call blacklist_key (ips bl, ttls bl) False] @ tr2"]
              IH [of bl2 srv2 "[Cas_call blacklist_key (ips bl, ttls bl) False] @ tr2"]
        by (simp split: prod.splits)
    qed
  qed
qed


lemma save_loop_stop: "\<not> tries < 10 \<Longrightarrow> save_loop tries bl srv tr = (Inr (), bl, srv, tr)"
  by (subst save_loop.simps) simp

lemma save_loop_published:
  "tries < 10 \<Longrightarrow> cache_server bl = Some cs \<Longrightarrow>
   cache_cas cs blacklist_key (ips bl, ttls bl) srv = (True, srv1) \<Longrightarrow>
   save_loop tries bl srv [] =
     (Inr (), bl\<lparr>dirty := False\<rparr>, srv1, [Cas_call blacklist_key (ips bl, ttls bl) True])"
  by (subst save_loop.simps) simp

lemma save_loop_retry:
  assumes "tries < 10" and "cache_server bl = Some cs"
    and "cache_cas cs blacklist_key (ips bl, ttls bl) srv = (False, srv1)"
  shows "save_loop tries bl srv [] =
     (case save_loop (tries + 1) (fst (update bl srv1)) (fst (snd (update bl srv1))) [] of
        (r, b, s, t) \<Rightarrow>
          (r, b, s,
           failed_turn ((ips bl, ttls bl), fst (cache_get cs blacklist_key srv1)) @ t))"
proof -
  let ?turn = "failed_turn ((ips bl, ttls bl), fst (cache_get cs blacklist_key srv1))"
  obtain bl2 srv2 tr2 where u: "update bl srv1 = (bl2, srv2, tr2)"
    by (cases "update bl srv1")
  have calls: "tr2 = [Get_call blacklist_key (fst (cache_get cs blacklist_key srv1))]"
    using assms(2) update_calls [of bl srv1] u by simp
  have "save_loop tries bl srv [] = save_loop (tries + 1) bl2 srv2 ?turn"
    using assms u calls by (subst save_loop.simps) simp
  then show ?thesis
    using u save_loop_acc [of "tries + 1" bl2 srv2 ?turn] by simp
qed

lemma save_loop_preserves:
  assumes upd: "\<And>b s. P b \<Longrightarrow> P (fst (update b s))"
    and clr: "\<And>b. P b \<Longrightarrow> P (b\<lparr>dirty := False\<rparr>)"
    and "P bl"
  shows "P (fst (snd (save_loop tries bl srv tr)))"
  using assms(3)
proof (induction "10 - tries" arbitrary: tries bl srv tr)
  case 0
  then show ?case by (simp add: save_loop_stop)
next
  case (Suc n)
  then have lt: "tries < 10" and n: "n = 10 - (tries + 1)" by simp_all
  show ?case
  proof (cases "cache_server bl")
    case None
    with lt Suc.prems show ?thesis by (subst save_loop.simps) simp
  next
    case (Some cs)
    obtain ok srv1 where c: "cache_cas cs blacklist_key (ips bl, ttls bl) srv = (ok, srv1)"
      by (cases "cache_cas cs blacklist_key (ips bl, ttls bl) srv")
    obtain bl2 srv2 tr2 where u: "update bl srv1 = (bl2, srv2, tr2)"
      by (cases "update bl srv1")
    show ?thesis
    proof (cases ok)
      case True
      with lt Some c Suc.prems show ?thesis
        by (subst save_loop.simps) (simp add: clr)
    next
      case False
      have "P bl2" using upd [OF Suc.prems, of srv1] u by simp
      then have "P (fst (snd (save_loop (tries + 1) bl2 srv2
                   (tr @ [Cas_call blacklist_key (ips bl, ttls bl) ok] @ tr2))))"
        by (rule Suc.hyps(1) [OF n])
      then show ?thesis
        using lt Some c u False by (subst save_loop.simps) simp
    qed
  qed
qed

lemma save_preserves:
  assumes "\<And>b s. P b \<Longrightarrow> P (fst (update b s))"
    and "\<And>b. P b \<Longrightarrow> P (b\<lparr>dirty := False\<rparr>)"
    and "P bl"
  shows "P (fst (snd (save bl srv)))"
  using assms save_loop_preserves [of P bl 0 srv "[]"] by (simp add: save_def)

lemma save_ips: "ips (fst (snd (save bl srv))) = ips bl"
  by (rule save_preserves [where P = "\<lambda>b. ips b = ips bl"]) (simp_all add: update_ips)

lemma save_cache_server: "cache_server (fst (snd (save bl srv))) = cache_server bl"
  by (rule save_preserves [where P = "\<lambda>b. cache_server b = cache_server bl"])
     (simp_all add: update_cache_server)

text \<open>The two ways the loop can end.\<close>

lemma save_loop_shape:
  assumes "cache_server bl = Some cs" and "tries \<le> 10"
  shows "\<exists>bl' srv' fails.
           (save_loop tries bl srv [] = (Inr (), bl', srv', concat (map failed_turn fails))
              \<and> length fails = 10 - tries \<and> dirty bl' = dirty bl)
         \<or> (\<exists>data. save_loop tries bl srv [] =
                (Inr (), bl', srv',
                 concat (map failed_turn fails) @ [Cas_call blacklist_key data True])
              \<and> length fails < 10 - tries \<and> \<not> dirty bl')"
  using assms
proof (induction "10 - tries" arbitrary: tries bl srv)
  case 0
  then have "save_loop tries bl srv [] = (Inr (), bl, srv, concat (map failed_turn []))"
    by (simp add: save_loop_stop)
  with 0 show ?case
    by (intro exI [of _ bl] exI [of _ srv] exI [of _ "[]"] disjI1) simp
next
  case (Suc n)
  then have lt: "tries < 10" and n: "n = 10 - (tries + 1)" by simp_all
  obtain ok srv1 where c: "cache_cas cs blacklist_key (ips bl, ttls bl) srv = (ok, srv1)"
    by (cases "cache_cas cs blacklist_key (ips bl, ttls bl) srv")
  show ?case
  proof (cases ok)
    case True
    have "save_loop tries bl srv [] =
            (Inr (), bl\<lparr>dirty := False\<rparr>, srv1,
             concat (map failed_turn []) @ [Cas_call blacklist_key (ips bl, ttls bl) True])"
      using save_loop_published [OF lt Suc.prems(1)] c True by simp
    moreover have "length ([] :: (snapshot \<times> snapshot option) list) < 10 - tries"
      using lt by simp
    ultimately show ?thesis
      by (intro exI [of _ "bl\<lparr>dirty := False\<rparr>"] exI [of _ srv1] exI [of _ "[]"] disjI2
             exI [of _ "(ips bl, ttls bl)"]) simp
  next
    case False
    let ?b = "fst (update bl srv1)" and ?s = "fst (snd (update bl srv1))"
    let ?d = "(ips bl, ttls bl)" and ?p = "fst (cache_get cs blacklist_key srv1)"
    have cs2: "cache_server ?b = Some cs"
      using Suc.prems(1) by (simp add: update_cache_server)
    have d2: "dirty ?b = dirty bl" by (simp add: update_dirty)
    have step: "save_loop tries bl srv [] =
        (case save_loop (tries + 1) ?b ?s [] of
           (r, b, s, t) \<Rightarrow> (r, b, s, failed_turn (?d, ?p) @ t))"
      using save_loop_retry [OF lt Suc.prems(1)] c False by simp
    have le: "tries + 1 \<le> 10" using lt by simp
    from Suc.hyps(1) [OF n cs2 le, of ?s]
    obtain bl' srv' fails where
      "(save_loop (tries + 1) ?b ?s [] = (Inr (), bl', srv', concat (map failed_turn fails))
          \<and> length fails = 10 - (tries + 1) \<and> dirty bl' = dirty ?b)
       \<or> (\<exists>data. save_loop (tries + 1) ?b ?s [] =
                (Inr (), bl', srv',
                 concat (map failed_turn fails) @ [Cas_call blacklist_key data True])
              \<and> length fails < 10 - (tries + 1) \<and> \<not> dirty bl')"
      by blast
    then show ?thesis
    proof
      assume a: "save_loop (tries + 1) ?b ?s [] = (Inr (), bl', srv', concat (map failed_turn fails))
          \<and> length fails = 10 - (tries + 1) \<and> dirty bl' = dirty ?b"
      then have "save_loop tries bl srv [] =
          (Inr (), bl', srv', concat (map failed_turn ((?d, ?p) # fails)))"
        using step by simp
      moreover have "length ((?d, ?p) # fails) = 10 - tries" using a lt by simp
      ultimately show ?thesis using a d2
        by (intro exI [of _ bl'] exI [of _ srv'] exI [of _ "(?d, ?p) # fails"] disjI1)
           simp
    next
      assume "\<exists>data. save_loop (tries + 1) ?b ?s [] =
                (Inr (), bl', srv',
                 concat (map failed_turn fails) @ [Cas_call blacklist_key data True])
              \<and> length fails < 10 - (tries + 1) \<and> \<not> dirty bl'"
      then obtain data where a: "save_loop (tries + 1) ?b ?s [] =
                (Inr (), bl', srv',
                 concat (map failed_turn fails) @ [Cas_call blacklist_key data True])"
          and l: "length fails < 10 - (tries + 1)" and d: "\<not> dirty bl'" by blast
      have "save_loop tries bl srv [] =
          (Inr (), bl', srv',
           concat (map failed_turn ((?d, ?p) # fails)) @ [Cas_call blacklist_key data True])"
        using step a by simp
      moreover have "length ((?d, ?p) # fails) < 10 - tries" using l lt by simp
      ultimately show ?thesis using d
        by (intro exI [of _ bl'] exI [of _ srv'] exI [of _ "(?d, ?p) # fails"] disjI2
               exI [of _ data]) simp
    qed
  qed
qed

section \<open>The properties of the blacklist\<close>

lemma ip_a_neq_b: "ip_a \<noteq> ip_b" "ip_b \<noteq> ip_a"
  by (simp_all add: ip_a_def ip_b_def)

subsection \<open>Membership check\<close>

text \<open>
  C3. On an object whose set and dictionary agree (\<open>ttl_inv\<close>, which every object built
  by the methods satisfies), the membership check returns \<^verbatim>\<open>True\<close> exactly when the
  IP is in the set and its expiry is \<^verbatim>\<open>None\<close> or still ahead of the clock, and
  \<^verbatim>\<open>False\<close> otherwise, without raising. When the IP is in the set with an expiry
  \<open>t\<close> that the clock has reached, the check returns \<^verbatim>\<open>False\<close>, takes the IP out of
  the set and out of the dictionary (and marks the object dirty), and a check of the same
  IP on the object it leaves returns \<^verbatim>\<open>False\<close> at any time \<open>now'\<close>.
\<close>

theorem contains_spec:
  assumes "ttl_inv bl"
  shows "fst (contains bl elmt now) =
           Inr (elmt \<in> ips bl \<and>
                (case ttls bl elmt of
                   None \<Rightarrow> False
                 | Some None \<Rightarrow> True
                 | Some (Some expiry) \<Rightarrow> now < expiry))
         \<and> (elmt \<in> ips bl \<and> ttls bl elmt = Some (Some t) \<and> t \<le> now \<longrightarrow>
              contains bl elmt now =
                (Inr False,
                 bl\<lparr>ips := ips bl - {elmt}, ttls := (ttls bl)(elmt := None), dirty := True\<rparr>)
              \<and> fst (contains (snd (contains bl elmt now)) elmt now') = Inr False)"
  using assms
  by (auto simp: contains_def remove_def ttl_inv_def Let_def split: option.splits)

theorem contains_spec_witness:
  "ttl_inv inst_down \<and> ip_a \<in> ips inst_down \<and> ttls inst_down ip_a = Some (Some 5)
   \<and> (5::real) \<le> 10
   \<and> fst (contains inst_down ip_a 10) = Inr False
   \<and> ips (snd (contains inst_down ip_a 10)) = {}
   \<and> ttls (snd (contains inst_down ip_a 10)) ip_a = None
   \<and> fst (contains (snd (contains inst_down ip_a 10)) ip_a 3) = Inr False
   \<and> fst (contains inst_down ip_a 3) = Inr True"
  using contains_spec [of inst_down ip_a 10 5 3] contains_spec [of inst_down ip_a 3 5 3]
  by (simp add: inst_down_def add_def init_def ttl_inv_def contains_def remove_def)

subsection \<open>Saving without anything to save\<close>

text \<open>
  C6. When the object is not dirty, or has no cache client, \<^verbatim>\<open>save\<close> returns at once:
  it makes no cache call, the cache is as before, and the object (set, dictionary and
  dirty flag) is unchanged.
\<close>

theorem save_noop:
  "\<not> dirty bl \<or> cache_server bl = None \<Longrightarrow> save bl srv = (Inr (), bl, srv, [])"
  by (auto simp: save_def)

theorem save_noop_witness:
  "\<not> dirty (init (Some (cas_client 0)))
   \<and> save (init (Some (cas_client 0))) empty_server
       = (Inr (), init (Some (cas_client 0)), empty_server, [])
   \<and> dirty (add (init None) ip_a None 0)
   \<and> cache_server (add (init None) ip_a None 0) = None
   \<and> save (add (init None) ip_a None 0) empty_server
       = (Inr (), add (init None) ip_a None 0, empty_server, [])"
  using save_noop [of "init (Some (cas_client 0))" empty_server]
        save_noop [of "add (init None) ip_a None 0" empty_server]
  by (simp add: init_def add_def)

subsection \<open>Removal\<close>

text \<open>
  C9. \<^verbatim>\<open>remove\<close> of an IP that is not in the set raises \<^verbatim>\<open>KeyError\<close> and leaves the
  object unchanged. On an object whose set and dictionary agree, \<^verbatim>\<open>remove\<close> succeeds
  exactly when the IP is in the set; it then takes the IP out of the set and out of the
  dictionary and marks the object dirty, and a second \<^verbatim>\<open>remove\<close> of the same IP
  raises \<^verbatim>\<open>KeyError\<close>: the method is not idempotent.
\<close>

theorem remove_spec:
  "(elmt \<notin> ips bl \<longrightarrow> remove bl elmt = (Inl KeyError, bl))
   \<and> (ttl_inv bl \<longrightarrow>
        remove bl elmt =
          (if elmt \<in> ips bl
           then (Inr (), bl\<lparr>ips := ips bl - {elmt}, ttls := (ttls bl)(elmt := None), dirty := True\<rparr>)
           else (Inl KeyError, bl))
        \<and> (elmt \<in> ips bl \<longleftrightarrow> fst (remove bl elmt) = Inr ())
        \<and> fst (remove (snd (remove bl elmt)) elmt) = Inl KeyError)"
  by (auto simp: remove_def ttl_inv_def Let_def)

theorem remove_spec_witness:
  "ip_b \<notin> ips inst_a \<and> ttl_inv inst_a
   \<and> remove inst_a ip_b = (Inl KeyError, inst_a)
   \<and> fst (remove inst_a ip_a) = Inr ()
   \<and> ips (snd (remove inst_a ip_a)) = {}
   \<and> fst (remove (snd (remove inst_a ip_a)) ip_a) = Inl KeyError"
  using remove_spec [of ip_b inst_a] remove_spec [of ip_a inst_a]
  by (simp add: inst_a_def add_def init_def ttl_inv_def ip_a_neq_b remove_def)

subsection \<open>The set is covered by the dictionary\<close>

lemma update_ttl_inv: "ttl_inv bl \<Longrightarrow> ttl_inv (fst (update bl srv))"
  using update_dom [of bl srv] by (auto simp: ttl_inv_def update_ips)

lemma save_ttl_inv: "ttl_inv bl \<Longrightarrow> ttl_inv (fst (snd (save bl srv)))"
proof (rule save_preserves [where P = ttl_inv])
  show "ttl_inv (fst (update b s))" if "ttl_inv b" for b :: "'a blacklist" and s
    using that by (rule update_ttl_inv)
  show "ttl_inv (b\<lparr>dirty := False\<rparr>)" if "ttl_inv b" for b :: "'a blacklist"
    using that by (simp add: ttl_inv_def)
qed

text \<open>
  C10. An object fresh from \<^verbatim>\<open>__init__\<close> has every IP of its set as a key of its
  dictionary, and \<^verbatim>\<open>add\<close>, \<^verbatim>\<open>remove\<close>, \<^verbatim>\<open>update\<close>, \<^verbatim>\<open>save\<close> and the membership
  check keep it so (whether they return or raise). On such an object an IP of the set
  has an entry in the dictionary, so the lookup inside the membership check does not
  raise \<^verbatim>\<open>KeyError\<close>.
\<close>

theorem ttl_inv_preserved:
  "ttl_inv (init cs)
   \<and> (ttl_inv bl \<longrightarrow>
        ttl_inv (add bl elmt ttl now)
        \<and> ttl_inv (snd (remove bl elmt))
        \<and> ttl_inv (fst (update bl srv))
        \<and> ttl_inv (fst (snd (save bl srv)))
        \<and> ttl_inv (snd (contains bl elmt now))
        \<and> (elmt \<in> ips bl \<longrightarrow> ttls bl elmt \<noteq> None)
        \<and> fst (contains bl elmt now) \<noteq> Inl KeyError)"
proof -
  have "ttl_inv (init cs)" by (simp add: ttl_inv_def init_def)
  moreover have "ttl_inv (add bl elmt ttl now)" if "ttl_inv bl"
    using that by (auto simp: ttl_inv_def add_def)
  moreover have "ttl_inv (snd (remove bl elmt))" if "ttl_inv bl"
    using that by (auto simp: ttl_inv_def remove_def Let_def)
  moreover have "ttl_inv (snd (contains bl elmt now))" if "ttl_inv bl"
    using that
    by (auto simp: ttl_inv_def contains_def remove_def Let_def split: option.splits)
  moreover have "ttls bl elmt \<noteq> None" if "ttl_inv bl" "elmt \<in> ips bl"
    using that by (auto simp: ttl_inv_def)
  moreover have "fst (contains bl elmt now) \<noteq> Inl KeyError" if "ttl_inv bl"
    using that
    by (auto simp: ttl_inv_def contains_def remove_def Let_def split: option.splits)
  ultimately show ?thesis
    using update_ttl_inv [of bl srv] save_ttl_inv [of bl srv] by blast
qed

theorem ttl_inv_preserved_witness:
  "ttl_inv inst_down
   \<and> ttl_inv (add inst_down ip_b None 7)
   \<and> ttl_inv (snd (remove inst_down ip_a))
   \<and> ttl_inv (fst (update inst_down ()))
   \<and> ttl_inv (fst (snd (save inst_down ())))
   \<and> ttl_inv (snd (contains inst_down ip_a 10))
   \<and> ip_a \<in> ips inst_down
   \<and> ttls inst_down ip_a \<noteq> None
   \<and> fst (contains inst_down ip_a 10) \<noteq> Inl KeyError"
  using ttl_inv_preserved [of "Some down_client" inst_down ip_b None 7 "()"]
        ttl_inv_preserved [of "Some down_client" inst_down ip_a None 10 "()"]
  by (simp add: inst_down_def add_def init_def ttl_inv_def)

subsection \<open>The loop of \<^verbatim>\<open>save\<close>\<close>

lemma cas_attempts_failed: "cas_attempts (concat (map failed_turn fails)) = length fails"
  by (induction fails) (auto simp: cas_attempts_def)

lemma no_cas_ok_failed: "\<not> list_ex cas_ok (concat (map failed_turn fails))"
  by (induction fails) auto

lemma cas_attempts_turns:
  "cas_attempts (concat (map (\<lambda>i. turn_calls cs (f i)) xs)) = length xs"
  by (induction xs) (auto simp: cas_attempts_def turn_calls_def split: prod.splits)

lemma save_down:
  "save inst_down () =
     (Inr (), inst_down, (),
      concat (map failed_turn (replicate 10 ((ips inst_down, ttls inst_down), None))))"
  by (simp add: save_def save_loop.simps update_def inst_down_def add_def init_def down_client_def
        numeral_eq_Suc)

lemma saved_a_eval:
  "saved_a = (Inr (), inst_a\<lparr>dirty := False\<rparr>,
      \<lparr>stored = Some ({ip_a}, [ip_a \<mapsto> None]), version = 1, seen = (\<lambda>c. 0)(0 := 1)\<rparr>,
      [Cas_call blacklist_key ({ip_a}, [ip_a \<mapsto> None]) True])"
  by (simp add: saved_a_def save_def save_loop.simps inst_a_def add_def init_def cas_client_def
        empty_server_def)

lemma before_attempt_0: "before_attempt cs st 0 = st"
  by (simp add: before_attempt_def)

lemma before_attempt_Suc:
  "before_attempt cs st (Suc i) = before_attempt cs (after_failed_turn cs st) i"
  by (simp add: before_attempt_def funpow_swap1)

lemma after_failed_turn_cache_server:
  "cache_server (fst (after_failed_turn cs (bl, srv))) = cache_server bl"
  by (simp add: after_failed_turn_def update_cache_server)

text \<open>
  The loop from any count \<open>tries\<close>, with \<open>n\<close> turns left: it ends with the first turn
  whose CAS the cache accepts, or after \<open>n\<close> failed turns.
\<close>

lemma save_loop_attempts:
  assumes "cache_server bl = Some cs" and "n = 10 - tries"
  shows "\<exists>k\<le>n.
           (\<forall>i<k. \<not> attempt_ok cs (before_attempt cs (bl, srv) i))
         \<and> (if k < n then
               attempt_ok cs (before_attempt cs (bl, srv) k)
               \<and> save_loop tries bl srv [] =
                   (Inr (), (fst (before_attempt cs (bl, srv) k))\<lparr>dirty := False\<rparr>,
                    attempt_cache cs (before_attempt cs (bl, srv) k),
                    concat (map (\<lambda>i. turn_calls cs (before_attempt cs (bl, srv) i)) [0..<k])
                    @ [publish_call (before_attempt cs (bl, srv) k)])
             else
               save_loop tries bl srv [] =
                 (Inr (), fst (before_attempt cs (bl, srv) n), snd (before_attempt cs (bl, srv) n),
                  concat (map (\<lambda>i. turn_calls cs (before_attempt cs (bl, srv) i)) [0..<n])))"
  using assms
proof (induction n arbitrary: tries bl srv)
  case 0
  then have "save_loop tries bl srv [] = (Inr (), bl, srv, [])"
    by (simp add: save_loop_stop)
  then show ?case
    by (intro exI [of _ 0]) (simp add: before_attempt_0)
next
  case (Suc n)
  then have lt: "tries < 10" and n: "n = 10 - (tries + 1)" by simp_all
  let ?st = "(bl, srv)"
  obtain ok srv1 where c: "cache_cas cs blacklist_key (ips bl, ttls bl) srv = (ok, srv1)"
    by (cases "cache_cas cs blacklist_key (ips bl, ttls bl) srv")
  show ?case
  proof (cases ok)
    case True
    have "save_loop tries bl srv [] =
            (Inr (), bl\<lparr>dirty := False\<rparr>, srv1, [Cas_call blacklist_key (ips bl, ttls bl) True])"
      using save_loop_published [OF lt Suc.prems(1)] c True by simp
    then show ?thesis
      using c True
      by (intro exI [of _ 0])
         (simp add: before_attempt_0 attempt_ok_def attempt_cache_def publish_call_def)
  next
    case False
    obtain bl2 srv2 where a: "after_failed_turn cs ?st = (bl2, srv2)"
      by (cases "after_failed_turn cs ?st")
    have u: "fst (update bl srv1) = bl2" "fst (snd (update bl srv1)) = srv2"
      using a c by (simp_all add: after_failed_turn_def attempt_cache_def)
    have cs2: "cache_server bl2 = Some cs"
      using after_failed_turn_cache_server [of cs bl srv] a Suc.prems(1) by simp
    have step: "save_loop tries bl srv [] =
        (case save_loop (tries + 1) bl2 srv2 [] of
           (r, b, s, t) \<Rightarrow> (r, b, s, turn_calls cs ?st @ t))"
      using save_loop_retry [OF lt Suc.prems(1)] c False u
      by (simp add: turn_calls_def attempt_cache_def)
    have nok: "\<not> attempt_ok cs ?st"
      using c False by (simp add: attempt_ok_def)
    have shift: "before_attempt cs ?st (Suc i) = before_attempt cs (bl2, srv2) i" for i
      using a by (simp add: before_attempt_Suc)
    have calls: "concat (map (\<lambda>i. turn_calls cs (before_attempt cs ?st i)) [0..<Suc k]) =
        turn_calls cs ?st
        @ concat (map (\<lambda>i. turn_calls cs (before_attempt cs (bl2, srv2) i)) [0..<k])" for k
    proof -
      have "[0..<Suc k] = 0 # map Suc [0..<k]"
        by (simp add: upt_conv_Cons map_Suc_upt del: upt_Suc)
      then show ?thesis
        by (simp add: before_attempt_0 shift comp_def del: upt_Suc)
    qed
    from Suc.IH [OF cs2 n, of srv2]
    obtain k where k: "k \<le> n"
      and fails: "\<forall>i<k. \<not> attempt_ok cs (before_attempt cs (bl2, srv2) i)"
      and res: "if k < n then
               attempt_ok cs (before_attempt cs (bl2, srv2) k)
               \<and> save_loop (tries + 1) bl2 srv2 [] =
                   (Inr (), (fst (before_attempt cs (bl2, srv2) k))\<lparr>dirty := False\<rparr>,
                    attempt_cache cs (before_attempt cs (bl2, srv2) k),
                    concat (map (\<lambda>i. turn_calls cs (before_attempt cs (bl2, srv2) i)) [0..<k])
                    @ [publish_call (before_attempt cs (bl2, srv2) k)])
             else
               save_loop (tries + 1) bl2 srv2 [] =
                 (Inr (), fst (before_attempt cs (bl2, srv2) n), snd (before_attempt cs (bl2, srv2) n),
                  concat (map (\<lambda>i. turn_calls cs (before_attempt cs (bl2, srv2) i)) [0..<n]))"
      by blast
    have fails': "\<forall>i<Suc k. \<not> attempt_ok cs (before_attempt cs ?st i)"
    proof (intro allI impI)
      fix i assume "i < Suc k"
      then show "\<not> attempt_ok cs (before_attempt cs ?st i)"
        using nok fails shift by (cases i) (simp_all add: before_attempt_0)
    qed
    show ?thesis
    proof (cases "k < n")
      case True
      with res step show ?thesis
        using fails' k calls [of k]
        by (intro exI [of _ "Suc k"]) (simp add: shift del: upt_Suc)
    next
      case False
      then have "k = n" using k by simp
      with res step show ?thesis
        using fails' calls [of n]
        by (intro exI [of _ "Suc n"]) (simp add: shift del: upt_Suc)
    qed
  qed
qed

text \<open>The shape of the list of cache calls alone.\<close>

lemma save_shape:
  assumes "dirty bl" and "cache_server bl = Some cs"
  shows "\<exists>bl' srv' fails tail.
           save bl srv = (Inr (), bl', srv', concat (map failed_turn fails) @ tail)
           \<and> (tail = [] \<and> length fails = 10
              \<or> (\<exists>data. tail = [Cas_call blacklist_key data True]) \<and> length fails < 10)
           \<and> cas_attempts (concat (map failed_turn fails) @ tail) \<le> 10"
proof -
  have s: "save bl srv = save_loop 0 bl srv []"
    using assms by (simp add: save_def)
  from save_loop_shape [OF assms(2), of 0 srv]
  obtain bl' srv' fails where
    "(save_loop 0 bl srv [] = (Inr (), bl', srv', concat (map failed_turn fails))
        \<and> length fails = 10 - 0 \<and> dirty bl' = dirty bl)
     \<or> (\<exists>data. save_loop 0 bl srv [] =
           (Inr (), bl', srv', concat (map failed_turn fails) @ [Cas_call blacklist_key data True])
         \<and> length fails < 10 - 0 \<and> \<not> dirty bl')"
    by blast
  then show ?thesis
  proof
    assume a: "save_loop 0 bl srv [] = (Inr (), bl', srv', concat (map failed_turn fails))
        \<and> length fails = 10 - 0 \<and> dirty bl' = dirty bl"
    show ?thesis
      using a s cas_attempts_failed [of fails]
      by (intro exI [of _ bl'] exI [of _ srv'] exI [of _ fails] exI [of _ "[]"]) simp
  next
    assume "\<exists>data. save_loop 0 bl srv [] =
           (Inr (), bl', srv', concat (map failed_turn fails) @ [Cas_call blacklist_key data True])
         \<and> length fails < 10 - 0 \<and> \<not> dirty bl'"
    then obtain data where a: "save_loop 0 bl srv [] =
           (Inr (), bl', srv', concat (map failed_turn fails) @ [Cas_call blacklist_key data True])"
      and l: "length fails < 10" by auto
    have "cas_attempts (concat (map failed_turn fails) @ [Cas_call blacklist_key data True])
            = length fails + 1"
      using cas_attempts_failed [of fails] by (simp add: cas_attempts_def)
    then show ?thesis
      using a s l
      by (intro exI [of _ bl'] exI [of _ srv'] exI [of _ fails]
            exI [of _ "[Cas_call blacklist_key data True]"]) simp
  qed
qed

lemma down_never_ok: "\<not> attempt_ok down_client st"
  by (simp add: attempt_ok_def down_client_def split: prod.splits)

lemma a_first_ok: "attempt_ok (cas_client 0) (inst_a, empty_server)"
  by (simp add: attempt_ok_def cas_client_def empty_server_def)

lemma b_first_fails: "\<not> attempt_ok (cas_client 1) (inst_b, fst (snd (snd saved_a)))"
  by (simp add: attempt_ok_def cas_client_def saved_a_eval)

lemma b_second_ok:
  "attempt_ok (cas_client 1) (before_attempt (cas_client 1) (inst_b, fst (snd (snd saved_a))) 1)"
  by (simp add: before_attempt_def after_failed_turn_def attempt_cache_def attempt_ok_def
        update_def cas_client_def saved_a_eval inst_b_def add_def init_def ip_a_neq_b)

text \<open>
  C5. On a dirty object with a cache client \<open>cs\<close>, \<^verbatim>\<open>save\<close> returns without raising,
  and what it does is fixed by the answers of the cache. Every turn sends one CAS of the
  object's current snapshot to \<open>cache_cas\<close>; a turn whose CAS fails goes on with
  \<^verbatim>\<open>update\<close> (one \<open>cache_get\<close> on the cache state the CAS left) before the next turn.
  Let \<open>k\<close> be the first turn, counted from 0, whose CAS the cache accepts. If \<open>k < 10\<close>,
  \<^verbatim>\<open>save\<close> makes the \<open>k\<close> failed turns and then the successful CAS, which is its last
  call, and returns the object of that turn with the dirty flag cleared and the cache as
  that CAS left it. If none of the first 10 turns succeeds, \<^verbatim>\<open>save\<close> makes exactly those
  10 failed turns and returns the object and the cache as they are after them. So the CAS
  is attempted at most 10 times, and the list of calls is a run of failed turns (a failed
  CAS, then the \<^verbatim>\<open>get\<close> of \<^verbatim>\<open>update\<close>) followed by nothing, after exactly 10 of them,
  or by one successful CAS, after fewer than 10.
\<close>

theorem save_retries:
  assumes "dirty bl" and "cache_server bl = Some cs"
  shows "(\<exists>k\<le>10.
            (\<forall>i<k. \<not> attempt_ok cs (before_attempt cs (bl, srv) i))
          \<and> (if k < 10 then
                attempt_ok cs (before_attempt cs (bl, srv) k)
                \<and> save bl srv =
                    (Inr (), (fst (before_attempt cs (bl, srv) k))\<lparr>dirty := False\<rparr>,
                     attempt_cache cs (before_attempt cs (bl, srv) k),
                     concat (map (\<lambda>i. turn_calls cs (before_attempt cs (bl, srv) i)) [0..<k])
                     @ [publish_call (before_attempt cs (bl, srv) k)])
              else
                save bl srv =
                  (Inr (), fst (before_attempt cs (bl, srv) 10),
                   snd (before_attempt cs (bl, srv) 10),
                   concat (map (\<lambda>i. turn_calls cs (before_attempt cs (bl, srv) i)) [0..<10]))))
         \<and> cas_attempts (snd (snd (snd (save bl srv)))) \<le> 10
         \<and> (\<exists>bl' srv' fails tail.
               save bl srv = (Inr (), bl', srv', concat (map failed_turn fails) @ tail)
               \<and> (tail = [] \<and> length fails = 10
                  \<or> (\<exists>data. tail = [Cas_call blacklist_key data True]) \<and> length fails < 10))"
proof -
  have s: "save bl srv = save_loop 0 bl srv []"
    using assms by (simp add: save_def)
  have first: "\<exists>k\<le>10.
            (\<forall>i<k. \<not> attempt_ok cs (before_attempt cs (bl, srv) i))
          \<and> (if k < 10 then
                attempt_ok cs (before_attempt cs (bl, srv) k)
                \<and> save bl srv =
                    (Inr (), (fst (before_attempt cs (bl, srv) k))\<lparr>dirty := False\<rparr>,
                     attempt_cache cs (before_attempt cs (bl, srv) k),
                     concat (map (\<lambda>i. turn_calls cs (before_attempt cs (bl, srv) i)) [0..<k])
                     @ [publish_call (before_attempt cs (bl, srv) k)])
              else
                save bl srv =
                  (Inr (), fst (before_attempt cs (bl, srv) 10),
                   snd (before_attempt cs (bl, srv) 10),
                   concat (map (\<lambda>i. turn_calls cs (before_attempt cs (bl, srv) i)) [0..<10])))"
    unfolding s by (rule save_loop_attempts [OF assms(2)]) simp
  from save_shape [OF assms, of srv]
  obtain bl' srv' fails tail where
    sh: "save bl srv = (Inr (), bl', srv', concat (map failed_turn fails) @ tail)"
    and tl: "tail = [] \<and> length fails = 10
              \<or> (\<exists>data. tail = [Cas_call blacklist_key data True]) \<and> length fails < 10"
    and le: "cas_attempts (concat (map failed_turn fails) @ tail) \<le> 10"
    by blast
  have "cas_attempts (snd (snd (snd (save bl srv)))) \<le> 10"
    using sh le by simp
  moreover have "\<exists>bl' srv' fails tail.
               save bl srv = (Inr (), bl', srv', concat (map failed_turn fails) @ tail)
               \<and> (tail = [] \<and> length fails = 10
                  \<or> (\<exists>data. tail = [Cas_call blacklist_key data True]) \<and> length fails < 10)"
    using sh tl by blast
  ultimately show ?thesis using first by blast
qed

theorem save_retries_witness:
  "dirty inst_down \<and> cache_server inst_down = Some down_client
   \<and> fst (save inst_down ()) = Inr ()
   \<and> cas_attempts (snd (snd (snd (save inst_down ())))) = 10
   \<and> \<not> list_ex cas_ok (snd (snd (snd (save inst_down ()))))
   \<and> dirty (fst (snd (save inst_down ())))
   \<and> dirty inst_a \<and> cache_server inst_a = Some (cas_client 0)
   \<and> save inst_a empty_server =
       (Inr (), inst_a\<lparr>dirty := False\<rparr>, attempt_cache (cas_client 0) (inst_a, empty_server),
        [publish_call (inst_a, empty_server)])
   \<and> cas_attempts (snd (snd (snd (save inst_a empty_server)))) = 1
   \<and> dirty inst_b \<and> cache_server inst_b = Some (cas_client 1)
   \<and> fst saved_b = Inr ()
   \<and> snd (snd (snd saved_b)) =
       turn_calls (cas_client 1) (inst_b, fst (snd (snd saved_a)))
       @ [publish_call (before_attempt (cas_client 1) (inst_b, fst (snd (snd saved_a))) 1)]
   \<and> cas_attempts (snd (snd (snd saved_b))) = 2"
proof -
  have d: "dirty inst_down" and c: "cache_server inst_down = Some down_client"
    by (simp_all add: inst_down_def add_def init_def)
  have da: "dirty inst_a" and ca: "cache_server inst_a = Some (cas_client 0)"
    by (simp_all add: inst_a_def add_def init_def)
  from save_retries [OF d c, of "()"]
  obtain k where "k \<le> 10"
    and "if k < 10 then attempt_ok down_client (before_attempt down_client (inst_down, ()) k)
           \<and> save inst_down () =
               (Inr (), (fst (before_attempt down_client (inst_down, ()) k))\<lparr>dirty := False\<rparr>,
                attempt_cache down_client (before_attempt down_client (inst_down, ()) k),
                concat (map (\<lambda>i. turn_calls down_client (before_attempt down_client (inst_down, ()) i))
                  [0..<k])
                @ [publish_call (before_attempt down_client (inst_down, ()) k)])
         else save inst_down () =
               (Inr (), fst (before_attempt down_client (inst_down, ()) 10),
                snd (before_attempt down_client (inst_down, ()) 10),
                concat (map (\<lambda>i. turn_calls down_client (before_attempt down_client (inst_down, ()) i))
                  [0..<10]))"
    by blast
  then have down: "save inst_down () =
               (Inr (), fst (before_attempt down_client (inst_down, ()) 10),
                snd (before_attempt down_client (inst_down, ()) 10),
                concat (map (\<lambda>i. turn_calls down_client (before_attempt down_client (inst_down, ()) i))
                  [0..<10]))"
    using down_never_ok [of "before_attempt down_client (inst_down, ()) k"]
    by (cases "k < 10") simp_all
  have down1: "fst (save inst_down ()) = Inr ()"
    and down2: "cas_attempts (snd (snd (snd (save inst_down ())))) = 10"
    using down cas_attempts_turns [of down_client "before_attempt down_client (inst_down, ())" "[0..<10]"]
    by simp_all
  have down3: "\<not> list_ex cas_ok (snd (snd (snd (save inst_down ()))))"
    and down4: "dirty (fst (snd (save inst_down ())))"
    using d by (simp_all add: save_down numeral_eq_Suc)
  from save_retries [OF da ca, of empty_server]
  obtain j where "\<forall>i<j. \<not> attempt_ok (cas_client 0) (before_attempt (cas_client 0) (inst_a, empty_server) i)"
    and r: "if j < 10 then attempt_ok (cas_client 0) (before_attempt (cas_client 0) (inst_a, empty_server) j)
           \<and> save inst_a empty_server =
               (Inr (), (fst (before_attempt (cas_client 0) (inst_a, empty_server) j))\<lparr>dirty := False\<rparr>,
                attempt_cache (cas_client 0) (before_attempt (cas_client 0) (inst_a, empty_server) j),
                concat (map (\<lambda>i. turn_calls (cas_client 0) (before_attempt (cas_client 0) (inst_a, empty_server) i))
                  [0..<j])
                @ [publish_call (before_attempt (cas_client 0) (inst_a, empty_server) j)])
         else save inst_a empty_server =
               (Inr (), fst (before_attempt (cas_client 0) (inst_a, empty_server) 10),
                snd (before_attempt (cas_client 0) (inst_a, empty_server) 10),
                concat (map (\<lambda>i. turn_calls (cas_client 0) (before_attempt (cas_client 0) (inst_a, empty_server) i))
                  [0..<10]))"
    by blast
  then have "j = 0"
    using a_first_ok by (cases j) (auto simp: before_attempt_0)
  with r have a: "save inst_a empty_server =
       (Inr (), inst_a\<lparr>dirty := False\<rparr>, attempt_cache (cas_client 0) (inst_a, empty_server),
        [publish_call (inst_a, empty_server)])"
    by (simp add: before_attempt_0)
  then have a2: "cas_attempts (snd (snd (snd (save inst_a empty_server)))) = 1"
    by (simp add: cas_attempts_def publish_call_def)

  let ?cs = "cas_client 1" and ?st = "(inst_b, fst (snd (snd saved_a)))"
  have db: "dirty inst_b" and cb: "cache_server inst_b = Some ?cs"
    by (simp_all add: inst_b_def add_def init_def)
  from save_retries [OF db cb, of "fst (snd (snd saved_a))"]
  obtain k where f: "\<forall>i<k. \<not> attempt_ok ?cs (before_attempt ?cs ?st i)"
    and r: "if k < 10 then attempt_ok ?cs (before_attempt ?cs ?st k)
           \<and> save inst_b (fst (snd (snd saved_a))) =
               (Inr (), (fst (before_attempt ?cs ?st k))\<lparr>dirty := False\<rparr>,
                attempt_cache ?cs (before_attempt ?cs ?st k),
                concat (map (\<lambda>i. turn_calls ?cs (before_attempt ?cs ?st i)) [0..<k])
                @ [publish_call (before_attempt ?cs ?st k)])
         else save inst_b (fst (snd (snd saved_a))) =
               (Inr (), fst (before_attempt ?cs ?st 10), snd (before_attempt ?cs ?st 10),
                concat (map (\<lambda>i. turn_calls ?cs (before_attempt ?cs ?st i)) [0..<10]))"
    by blast
  have "\<not> 1 < k" using f b_second_ok by blast
  moreover have "k \<noteq> 0"
  proof
    assume "k = 0"
    with r have "attempt_ok ?cs (before_attempt ?cs ?st 0)" by simp
    then show False using b_first_fails by (simp add: before_attempt_0)
  qed
  ultimately have k: "k = 1" by simp
  from r have b: "saved_b =
      (Inr (), (fst (before_attempt ?cs ?st 1))\<lparr>dirty := False\<rparr>,
       attempt_cache ?cs (before_attempt ?cs ?st 1),
       turn_calls ?cs ?st @ [publish_call (before_attempt ?cs ?st 1)])"
    unfolding k by (simp add: saved_b_def before_attempt_0)
  have two: "cas_attempts (turn_calls ?cs ?st @ [publish_call (before_attempt ?cs ?st 1)]) = 2"
    by (cases "before_attempt ?cs ?st 1")
       (simp add: cas_attempts_def turn_calls_def publish_call_def)
  have "fst saved_b = Inr ()"
    and "snd (snd (snd saved_b)) =
       turn_calls ?cs ?st @ [publish_call (before_attempt ?cs ?st 1)]"
    and "cas_attempts (snd (snd (snd saved_b))) = 2"
    unfolding b using two by simp_all
  then have b_part: "dirty inst_b \<and> cache_server inst_b = Some (cas_client 1)
   \<and> fst saved_b = Inr ()
   \<and> snd (snd (snd saved_b)) =
       turn_calls (cas_client 1) (inst_b, fst (snd (snd saved_a)))
       @ [publish_call (before_attempt (cas_client 1) (inst_b, fst (snd (snd saved_a))) 1)]
   \<and> cas_attempts (snd (snd (snd saved_b))) = 2"
    using db cb by simp
  show ?thesis
    using d c da ca down1 down2 down3 down4 a a2 b_part by blast
qed

subsection \<open>The dirty flag\<close>

lemma save_dirty:
  "dirty (fst (snd (save bl srv))) =
     (dirty bl \<and> \<not> list_ex cas_ok (snd (snd (snd (save bl srv)))))"
proof (cases "cache_server bl = None \<or> \<not> dirty bl")
  case True
  then have "save bl srv = (Inr (), bl, srv, [])" by (auto simp: save_def)
  with True show ?thesis by auto
next
  case False
  then obtain cs where cs: "cache_server bl = Some cs" and d: "dirty bl" by auto
  have s: "save bl srv = save_loop 0 bl srv []"
    using cs d by (simp add: save_def)
  from save_loop_shape [OF cs, of 0 srv]
  obtain bl' srv' fails where
    "(save_loop 0 bl srv [] = (Inr (), bl', srv', concat (map failed_turn fails))
        \<and> length fails = 10 - 0 \<and> dirty bl' = dirty bl)
     \<or> (\<exists>data. save_loop 0 bl srv [] =
           (Inr (), bl', srv', concat (map failed_turn fails) @ [Cas_call blacklist_key data True])
         \<and> length fails < 10 - 0 \<and> \<not> dirty bl')"
    by blast
  then show ?thesis
    using s d no_cas_ok_failed [of fails] by auto
qed

text \<open>
  C4. \<^verbatim>\<open>add\<close> leaves the object dirty; so does a \<^verbatim>\<open>remove\<close> that succeeds, and so
  does a membership check that finds the IP expired and removes it. No call of
  \<^verbatim>\<open>remove\<close>, of the membership check or of \<^verbatim>\<open>update\<close> makes a dirty object clean.
  After \<^verbatim>\<open>save\<close> the object is dirty exactly when it was dirty before and no CAS of
  this \<^verbatim>\<open>save\<close> succeeded: the flag is cleared by a successful CAS only, and a
  \<^verbatim>\<open>save\<close> whose CAS attempts all fail leaves it set.
\<close>

theorem dirty_flag:
  "dirty (add bl elmt ttl now)
   \<and> (fst (remove bl elmt) = Inr () \<longrightarrow> dirty (snd (remove bl elmt)))
   \<and> (elmt \<in> ips bl \<and> ttls bl elmt = Some (Some t) \<and> t \<le> now \<longrightarrow>
        dirty (snd (contains bl elmt now)))
   \<and> (dirty bl \<longrightarrow>
        dirty (snd (remove bl elmt)) \<and> dirty (snd (contains bl elmt now))
        \<and> dirty (fst (update bl srv)))
   \<and> dirty (fst (snd (save bl srv))) =
       (dirty bl \<and> \<not> list_ex cas_ok (snd (snd (snd (save bl srv)))))"
proof -
  have "dirty (add bl elmt ttl now)" by (simp add: add_def)
  moreover have "fst (remove bl elmt) = Inr () \<longrightarrow> dirty (snd (remove bl elmt))"
    by (simp add: remove_def Let_def)
  moreover have "elmt \<in> ips bl \<and> ttls bl elmt = Some (Some t) \<and> t \<le> now \<longrightarrow>
        dirty (snd (contains bl elmt now))"
    by (simp add: contains_def remove_def Let_def)
  moreover have "dirty bl \<longrightarrow> dirty (snd (remove bl elmt))"
    by (simp add: remove_def Let_def)
  moreover have "dirty bl \<longrightarrow> dirty (snd (contains bl elmt now))"
    by (simp add: contains_def remove_def Let_def split: option.splits)
  moreover have "dirty bl \<longrightarrow> dirty (fst (update bl srv))"
    by (simp add: update_dirty)
  ultimately show ?thesis using save_dirty [of bl srv] by blast
qed

theorem dirty_flag_witness:
  "dirty (add (init None) ip_a None 0)
   \<and> fst (remove inst_down ip_a) = Inr () \<and> dirty (snd (remove inst_down ip_a))
   \<and> ip_a \<in> ips inst_down \<and> ttls inst_down ip_a = Some (Some 5) \<and> (5::real) \<le> 10
   \<and> dirty (snd (contains inst_down ip_a 10))
   \<and> dirty inst_down \<and> dirty (fst (update inst_down ()))
   \<and> \<not> list_ex cas_ok (snd (snd (snd (save inst_down ()))))
   \<and> dirty (fst (snd (save inst_down ())))
   \<and> dirty inst_a \<and> list_ex cas_ok (snd (snd (snd saved_a)))
   \<and> \<not> dirty (fst (snd saved_a))"
proof -
  have a: "dirty inst_a" by (simp add: inst_a_def add_def)
  have "list_ex cas_ok (snd (snd (snd saved_a)))" by (simp add: saved_a_eval)
  then have "\<not> dirty (fst (snd saved_a))"
    using dirty_flag [of inst_a ip_a None 0 0 empty_server] by (simp add: saved_a_def)
  moreover have "\<not> list_ex cas_ok (snd (snd (snd (save inst_down ()))))"
    by (simp add: save_down numeral_eq_Suc)
  ultimately show ?thesis
    using a dirty_flag [of inst_down ip_a None 10 5 "()"] \<open>list_ex cas_ok (snd (snd (snd saved_a)))\<close>
    by (simp add: inst_down_def add_def init_def remove_def)
qed

subsection \<open>Pulling the remote snapshot\<close>

text \<open>
  C1. \<^verbatim>\<open>update\<close> on an object with a cache client, when \<^verbatim>\<open>get\<close> returns the
  snapshot \<open>(rips, rttls)\<close>, takes nothing away: the IPs of the set stay in the set and
  the keys of the dictionary stay keys. When the set already holds every IP of \<open>rips\<close>,
  the object is left as it is and \<open>rttls\<close> is not merged. Otherwise \<open>rttls\<close> is merged
  into the dictionary, its entries winning, so that every entry of \<open>rttls\<close> is an entry
  of the dictionary afterwards.
\<close>

theorem update_merge:
  assumes "cache_server bl = Some cs"
    and "fst (cache_get cs blacklist_key srv) = Some (rips, rttls)"
  shows "ips bl \<subseteq> ips (fst (update bl srv))
         \<and> dom (ttls bl) \<subseteq> dom (ttls (fst (update bl srv)))
         \<and> (if rips \<subseteq> ips bl
            then fst (update bl srv) = bl
            else ttls (fst (update bl srv)) = ttls bl ++ rttls
                 \<and> rttls \<subseteq>\<^sub>m ttls (fst (update bl srv)))"
  using assms update_dom [of bl srv]
  by (auto simp: update_def Let_def map_le_def map_add_def split: prod.splits option.splits)

theorem update_merge_witness:
  "cache_server inst_b = Some (cas_client 1)
   \<and> fst (cache_get (cas_client 1) blacklist_key server_ttl) = Some ({ip_a}, [ip_a \<mapsto> Some 100])
   \<and> ip_b \<in> ips (fst (update inst_b server_ttl))
   \<and> ttls (fst (update inst_b server_ttl)) = ttls inst_b ++ [ip_a \<mapsto> Some 100]
   \<and> ttls (fst (update inst_b server_ttl)) ip_a = Some (Some 100)
   \<and> ttls (fst (update inst_b server_ttl)) ip_b = Some None
   \<and> cache_server inst_a = Some (cas_client 0)
   \<and> fst (cache_get (cas_client 0) blacklist_key server_ttl) = Some ({ip_a}, [ip_a \<mapsto> Some 100])
   \<and> fst (update inst_a server_ttl) = inst_a"
proof -
  have b: "cache_server inst_b = Some (cas_client 1)"
    and a: "cache_server inst_a = Some (cas_client 0)"
    by (simp_all add: inst_a_def inst_b_def add_def init_def)
  have gb: "fst (cache_get (cas_client 1) blacklist_key server_ttl) = Some ({ip_a}, [ip_a \<mapsto> Some 100])"
    and ga: "fst (cache_get (cas_client 0) blacklist_key server_ttl) = Some ({ip_a}, [ip_a \<mapsto> Some 100])"
    by (simp_all add: cas_client_def server_ttl_def remote_ttl_def)
  have ib: "ips inst_b = {ip_b}" "ttls inst_b = [ip_b \<mapsto> None]" and ia: "ips inst_a = {ip_a}"
    by (simp_all add: inst_a_def inst_b_def add_def init_def)
  show ?thesis
    using update_merge [OF b gb] update_merge [OF a ga] a b ga gb ib ia
    by (auto simp: ip_a_neq_b map_add_def)
qed

text \<open>
  The claim as stated fails where the set already holds the remote IPs: instance A knows
  \<open>ip_a\<close> without expiry, the cache holds \<open>ip_a\<close> with the expiry 100, and after
  \<^verbatim>\<open>update\<close> the dictionary of A still binds \<open>ip_a\<close> to \<^verbatim>\<open>None\<close>.
\<close>

theorem update_keeps_own_ttl:
  "cache_server inst_a = Some (cas_client 0)
   \<and> fst (cache_get (cas_client 0) blacklist_key server_ttl) = Some remote_ttl
   \<and> snd remote_ttl ip_a = Some (Some 100)
   \<and> ttls (fst (update inst_a server_ttl)) ip_a = Some None
   \<and> \<not> (fst remote_ttl \<subseteq> ips (fst (update inst_a server_ttl))
         \<and> snd remote_ttl \<subseteq>\<^sub>m ttls (fst (update inst_a server_ttl)))"
  by (simp add: update_def inst_a_def add_def init_def cas_client_def server_ttl_def
        empty_server_def remote_ttl_def map_le_def)

subsection \<open>Two instances after saving and updating\<close>

lemma saved_b_eval:
  "saved_b = (Inr (),
      inst_b\<lparr>ttls := [ip_b \<mapsto> None, ip_a \<mapsto> None], dirty := False\<rparr>,
      \<lparr>stored = Some ({ip_b}, [ip_b \<mapsto> None, ip_a \<mapsto> None]), version = 2,
       seen = (\<lambda>c. 0)(0 := 1, 1 := 2)\<rparr>,
      [Cas_call blacklist_key ({ip_b}, [ip_b \<mapsto> None]) False,
       Get_call blacklist_key (Some ({ip_a}, [ip_a \<mapsto> None])),
       Cas_call blacklist_key ({ip_b}, [ip_b \<mapsto> None, ip_a \<mapsto> None]) True])"
  by (simp add: saved_b_def saved_a_eval save_def save_loop.simps update_def inst_a_def inst_b_def
        add_def init_def cas_client_def ip_a_neq_b fun_eq_iff)

lemma updated_a_eval:
  "updated_a = (inst_a\<lparr>ttls := [ip_a \<mapsto> None, ip_b \<mapsto> None], dirty := False\<rparr>,
      \<lparr>stored = Some ({ip_b}, [ip_b \<mapsto> None, ip_a \<mapsto> None]), version = 2,
       seen = (\<lambda>c. 0)(0 := 2, 1 := 2)\<rparr>,
      [Get_call blacklist_key (Some ({ip_b}, [ip_b \<mapsto> None, ip_a \<mapsto> None]))])"
  by (simp add: updated_a_def saved_a_eval saved_b_eval update_def inst_a_def inst_b_def
        add_def init_def cas_client_def ip_a_neq_b fun_eq_iff)

lemma updated_b_eval:
  "updated_b = (inst_b\<lparr>ttls := [ip_b \<mapsto> None, ip_a \<mapsto> None], dirty := False\<rparr>,
      \<lparr>stored = Some ({ip_b}, [ip_b \<mapsto> None, ip_a \<mapsto> None]), version = 2,
       seen = (\<lambda>c. 0)(0 := 2, 1 := 2)\<rparr>,
      [Get_call blacklist_key (Some ({ip_b}, [ip_b \<mapsto> None, ip_a \<mapsto> None]))])"
  by (simp add: updated_b_def updated_a_eval saved_b_eval update_def inst_a_def inst_b_def
        add_def init_def cas_client_def ip_a_neq_b fun_eq_iff)

text \<open>
  C2. The two instances on one cache: both \<^verbatim>\<open>save\<close> calls return with a successful
  CAS (B after one failed turn, in which it pulled the snapshot of A), both
  \<^verbatim>\<open>update\<close> calls make their \<^verbatim>\<open>get\<close>. Afterwards the set of A is still \<open>{ip_a}\<close>
  and the set of B still \<open>{ip_b}\<close>: neither check finds the IP the other instance added,
  and the set in the cache holds \<open>ip_b\<close> only.
\<close>

theorem convergence_lost:
  "fst saved_a = Inr () \<and> list_ex cas_ok (snd (snd (snd saved_a)))
   \<and> fst saved_b = Inr () \<and> list_ex cas_ok (snd (snd (snd saved_b)))
   \<and> length (snd (snd updated_a)) = 1
   \<and> length (snd (snd updated_b)) = 1
   \<and> ips (fst updated_a) = {ip_a} \<and> ip_b \<notin> ips (fst updated_a)
   \<and> ips (fst updated_b) = {ip_b} \<and> ip_a \<notin> ips (fst updated_b)
   \<and> fst (contains (fst updated_a) ip_b 1) = Inr False
   \<and> fst (contains (fst updated_b) ip_a 1) = Inr False
   \<and> map_option fst (stored (fst (snd updated_b))) = Some {ip_b}"
  by (simp add: saved_a_eval saved_b_eval updated_a_eval updated_b_eval inst_a_def inst_b_def
        add_def init_def contains_def ip_a_neq_b)

subsection \<open>Entries without expiry\<close>

lemma permanent_add:
  "permanent bl elmt \<Longrightarrow> \<not> replaces elmt (Add e ttl now) \<Longrightarrow> permanent (add bl e ttl now) elmt"
  by (auto simp: permanent_def add_def)

lemma permanent_remove:
  "permanent bl elmt \<Longrightarrow> e \<noteq> elmt \<Longrightarrow> permanent (snd (remove bl e)) elmt"
  by (auto simp: permanent_def remove_def Let_def)

lemma permanent_contains_self:
  "permanent bl elmt \<Longrightarrow> contains bl elmt now = (Inr True, bl)"
  by (simp add: permanent_def contains_def)

lemma permanent_contains:
  "permanent bl elmt \<Longrightarrow> permanent (snd (contains bl e now)) elmt"
  by (cases "e = elmt")
     (auto simp: permanent_def contains_def remove_def Let_def split: option.splits)

lemma permanent_update:
  assumes "permanent bl elmt"
    and "\<not> list_ex (pulls_expiry elmt) (snd (snd (update bl srv)))"
  shows "permanent (fst (update bl srv)) elmt"
  using assms
  by (auto simp: permanent_def update_def Let_def map_add_def
           split: option.splits prod.splits if_splits)

lemma permanent_save_loop:
  assumes "permanent bl elmt"
    and "\<not> list_ex (pulls_expiry elmt) (snd (snd (snd (save_loop tries bl srv []))))"
  shows "permanent (fst (snd (save_loop tries bl srv []))) elmt"
  using assms
proof (induction "10 - tries" arbitrary: tries bl srv)
  case 0
  then show ?case by (simp add: save_loop_stop)
next
  case (Suc n)
  then have lt: "tries < 10" and n: "n = 10 - (tries + 1)" by simp_all
  show ?case
  proof (cases "cache_server bl")
    case None
    with lt Suc.prems show ?thesis by (subst save_loop.simps) simp
  next
    case (Some cs)
    obtain ok srv1 where c: "cache_cas cs blacklist_key (ips bl, ttls bl) srv = (ok, srv1)"
      by (cases "cache_cas cs blacklist_key (ips bl, ttls bl) srv")
    show ?thesis
    proof (cases ok)
      case True
      then show ?thesis
        using save_loop_published [OF lt Some, of srv srv1] c Suc.prems(1)
        by (simp add: permanent_def)
    next
      case False
      let ?b = "fst (update bl srv1)" and ?s = "fst (snd (update bl srv1))"
      let ?p = "fst (cache_get cs blacklist_key srv1)"
      have step: "save_loop tries bl srv [] =
          (case save_loop (tries + 1) ?b ?s [] of
             (r, b, s, t) \<Rightarrow> (r, b, s, failed_turn ((ips bl, ttls bl), ?p) @ t))"
        using save_loop_retry [OF lt Some] c False by simp
      have calls: "snd (snd (update bl srv1)) = [Get_call blacklist_key ?p]"
        using Some by (simp add: update_calls)
      have tr: "snd (snd (snd (save_loop tries bl srv []))) =
          failed_turn ((ips bl, ttls bl), ?p) @ snd (snd (snd (save_loop (tries + 1) ?b ?s [])))"
        and res: "fst (snd (save_loop tries bl srv [])) = fst (snd (save_loop (tries + 1) ?b ?s []))"
        using step by (simp_all split: prod.splits)
      have "\<not> pulls_expiry elmt (Get_call blacklist_key ?p)"
        and rest: "\<not> list_ex (pulls_expiry elmt) (snd (snd (snd (save_loop (tries + 1) ?b ?s []))))"
        using Suc.prems(2) tr by simp_all
      then have "permanent ?b elmt"
        using permanent_update [OF Suc.prems(1), of srv1] calls by simp
      then show ?thesis
        using Suc.hyps(1) [OF n _ rest] res by simp
    qed
  qed
qed

lemma permanent_save:
  assumes "permanent bl elmt"
    and "\<not> list_ex (pulls_expiry elmt) (snd (snd (snd (save bl srv))))"
  shows "permanent (fst (snd (save bl srv))) elmt"
  using assms permanent_save_loop [of bl elmt 0 srv] by (auto simp: save_def split: if_splits)

lemma step_calls: "\<exists>t'. snd (snd (step (bl, srv, tr) x)) = tr @ t'"
  by (cases x) (simp_all split: prod.splits)

lemma run_calls: "\<exists>t'. snd (snd (run (bl, srv, tr) ops)) = tr @ t'"
proof (induction ops arbitrary: bl srv tr)
  case Nil
  show ?case by (simp add: run_def)
next
  case (Cons x ops)
  obtain bl1 srv1 tr1 where s: "step (bl, srv, tr) x = (bl1, srv1, tr1)"
    by (cases "step (bl, srv, tr) x")
  obtain t1 where t1: "tr1 = tr @ t1" using step_calls [of bl srv tr x] s by auto
  obtain t2 where "snd (snd (run (bl1, srv1, tr1) ops)) = tr1 @ t2"
    using Cons.IH [of bl1 srv1 tr1] by auto
  then show ?case using s t1 by (simp add: run_def)
qed

lemma permanent_step:
  assumes "permanent bl elmt" and "\<not> replaces elmt x"
    and "\<not> list_ex (pulls_expiry elmt) (snd (snd (step (bl, srv, tr) x)))"
  shows "permanent (fst (step (bl, srv, tr) x)) elmt"
proof (cases x)
  case (Add e ttl now)
  with assms show ?thesis using permanent_add [of bl elmt e ttl now] by simp
next
  case (Remove e)
  with assms show ?thesis using permanent_remove [of bl elmt e] by simp
next
  case (Check e now)
  with assms show ?thesis using permanent_contains [of bl elmt e now] by simp
next
  case Update
  with assms show ?thesis
    using permanent_update [of bl elmt srv] by (simp split: prod.splits)
next
  case Save
  with assms show ?thesis
    using permanent_save [of bl elmt srv] by (simp split: prod.splits)
qed

lemma permanent_run:
  assumes "permanent bl elmt" and "\<not> list_ex (replaces elmt) ops"
    and "\<not> list_ex (pulls_expiry elmt) (snd (snd (run (bl, srv, tr) ops)))"
  shows "permanent (fst (run (bl, srv, tr) ops)) elmt"
  using assms
proof (induction ops arbitrary: bl srv tr)
  case Nil
  then show ?case by (simp add: run_def)
next
  case (Cons x ops)
  obtain bl1 srv1 tr1 where s: "step (bl, srv, tr) x = (bl1, srv1, tr1)"
    by (cases "step (bl, srv, tr) x")
  have r: "run (bl, srv, tr) (x # ops) = run (bl1, srv1, tr1) ops"
    using s by (simp add: run_def)
  obtain t2 where t2: "snd (snd (run (bl1, srv1, tr1) ops)) = tr1 @ t2"
    using run_calls [of bl1 srv1 tr1 ops] by auto
  have "\<not> list_ex (pulls_expiry elmt) tr1"
    using Cons.prems(3) r t2 by simp
  then have "permanent bl1 elmt"
    using permanent_step [of bl elmt x srv tr] Cons.prems(1,2) s by simp
  then show ?case
    using Cons.IH [of bl1 srv1 tr1] Cons.prems(2,3) r by simp
qed

text \<open>
  C7. After \<^verbatim>\<open>add(elmt)\<close> with no ttl, let any calls of \<^verbatim>\<open>add\<close>, \<^verbatim>\<open>remove\<close>,
  membership check, \<^verbatim>\<open>update\<close> and \<^verbatim>\<open>save\<close> follow, of which none removes \<open>elmt\<close>
  or adds it again with a ttl, and in which no \<^verbatim>\<open>get\<close> returned a snapshot whose
  dictionary gives \<open>elmt\<close> an expiry. Then a membership check of \<open>elmt\<close> at any time
  \<open>later\<close> returns \<^verbatim>\<open>True\<close> and leaves the object unchanged.
\<close>

theorem permanent_until_replaced:
  assumes "\<not> list_ex (replaces elmt) ops"
    and "\<not> list_ex (pulls_expiry elmt) (snd (snd (run (add bl elmt None now, srv, []) ops)))"
  shows "contains (fst (run (add bl elmt None now, srv, []) ops)) elmt later =
           (Inr True, fst (run (add bl elmt None now, srv, []) ops))"
proof -
  have "permanent (add bl elmt None now) elmt"
    by (simp add: permanent_def add_def)
  then have "permanent (fst (run (add bl elmt None now, srv, []) ops)) elmt"
    using assms by (rule permanent_run)
  then show ?thesis by (rule permanent_contains_self)
qed

theorem permanent_until_replaced_witness:
  "\<not> list_ex (replaces ip_a)
       [Check ip_a 3, Add ip_b (Some 1) 2, Check ip_b 9, Remove ip_b, Save, Update,
        Add ip_a None 4]
   \<and> \<not> list_ex (pulls_expiry ip_a)
       (snd (snd (run (add (init (Some (cas_client 3))) ip_a None 1, empty_server, [])
          [Check ip_a 3, Add ip_b (Some 1) 2, Check ip_b 9, Remove ip_b, Save, Update,
           Add ip_a None 4])))
   \<and> fst (contains
       (fst (run (add (init (Some (cas_client 3))) ip_a None 1, empty_server, [])
          [Check ip_a 3, Add ip_b (Some 1) 2, Check ip_b 9, Remove ip_b, Save, Update,
           Add ip_a None 4])) ip_a 1000) = Inr True"
proof -
  let ?ops = "[Check ip_a 3, Add ip_b (Some 1) 2, Check ip_b 9, Remove ip_b, Save, Update,
        Add ip_a None 4]"
  have r: "\<not> list_ex (replaces ip_a) ?ops" by (simp add: ip_a_neq_b)
  have p: "\<not> list_ex (pulls_expiry ip_a)
       (snd (snd (run (add (init (Some (cas_client 3))) ip_a None 1, empty_server, []) ?ops)))"
    by (simp add: run_def save_def save_loop.simps update_def add_def init_def cas_client_def
          empty_server_def contains_def remove_def ip_a_neq_b)
  show ?thesis
    using permanent_until_replaced [OF r p, of 1000] r p by simp
qed

lemma saved_c_eval:
  "saved_c = (Inr (), inst_c\<lparr>dirty := False\<rparr>,
      \<lparr>stored = Some ({ip_b, ip_a}, [ip_a \<mapsto> Some 5, ip_b \<mapsto> None]), version = 1,
       seen = (\<lambda>c. 0)(2 := 1)\<rparr>,
      [Cas_call blacklist_key ({ip_b, ip_a}, [ip_a \<mapsto> Some 5, ip_b \<mapsto> None]) True])"
  by (simp add: saved_c_def save_def save_loop.simps inst_c_def add_def init_def cas_client_def
        empty_server_def)

text \<open>
  The claim as stated fails after a pull: instance C blocks \<open>ip_a\<close> for 5 seconds and
  publishes, instance D blocks \<open>ip_a\<close> without expiry and updates. The dictionary of D
  then gives \<open>ip_a\<close> the expiry 5, and at time 10 the check on D returns \<^verbatim>\<open>False\<close>,
  with no call of \<^verbatim>\<open>remove\<close>.
\<close>

theorem permanent_overwritten:
  "fst saved_c = Inr ()
   \<and> permanent inst_d ip_a
   \<and> fst (contains inst_d ip_a 10) = Inr True
   \<and> ttls (fst updated_d) ip_a = Some (Some 5)
   \<and> fst (contains (fst updated_d) ip_a 10) = Inr False"
  by (simp add: updated_d_def saved_c_eval update_def inst_d_def inst_c_def add_def init_def
        cas_client_def permanent_def contains_def remove_def ip_a_neq_b)

end
